theory Spec2Isabelle
  imports Main "HOL-Library.Multiset" "HOL-Library.Monad_Syntax"
begin

section \<open>Duplicate-vertex detection and mesh compaction (MainWindow.cpp)\<close>

text \<open>
  The development embeds the two free functions \<^verbatim>\<open>findDuplicates\<close> and
  \<^verbatim>\<open>removeDuplicates\<close> of \<^verbatim>\<open>src/MainApplication/Gui/MainWindow.cpp\<close>
  (lines 612 to 696).

  Conventions of the embedding.
  \<^item> A coordinate (\<^verbatim>\<open>Scalar\<close>, a float) is \<open>NaN\<close> or a number \<open>Num a\<close>, with \<open>a\<close> of
    a linearly ordered type (the infinities are numbers; the two zeros, which compare
    equal, are one number). The comparisons \<^verbatim>\<open>==\<close> and \<^verbatim>\<open><\<close> of the code are
    \<open>scalar_eq\<close> and \<open>scalar_less\<close>: both are false as soon as one side is \<open>NaN\<close>.
    Rounding plays no part: the code only copies and compares coordinates.
  \<^item> \<^verbatim>\<open>std::vector\<close> is a list. \<^verbatim>\<open>operator[]\<close> is unchecked in C++; an access
    out of range is undefined behaviour, and the embedding makes it the result
    \<open>None\<close> of the whole call: every read is \<open>at\<close>, every write is \<open>put\<close>.
  \<^item> \<^verbatim>\<open>Index\<close> (\<^verbatim>\<open>Ra::Core::Utils::Index\<close>) wraps a signed \<^verbatim>\<open>int\<close>, with
    \<^verbatim>\<open>Index::Invalid()\<close> the value \<open>-1\<close>; it is an \<open>int\<close> here. Vertex counts
    are taken to fit the \<^verbatim>\<open>int\<close> and \<^verbatim>\<open>uint\<close> loop counters the code casts them to.
  \<^item> A \<^verbatim>\<open>for\<close> loop is \<open>for_loop\<close>, the fold of its body over the list of the
    values its counter takes, stopping at the first fault. The loops marked
    \<^verbatim>\<open>#pragma omp parallel for\<close> write disjoint slots; they are run in index
    order, and \<open>parallel_for\<close> runs the first of them in any other order.
\<close>

subsection \<open>Data model\<close>

datatype 'a Scalar = NaN | Num (num: 'a)

fun scalar_eq :: "'a Scalar \<Rightarrow> 'a Scalar \<Rightarrow> bool" where
  "scalar_eq (Num a) (Num b) = (a = b)"
| "scalar_eq _ _ = False"

fun scalar_less :: "('a::linorder) Scalar \<Rightarrow> 'a Scalar \<Rightarrow> bool" where
  "scalar_less (Num a) (Num b) = (a < b)"
| "scalar_less _ _ = False"

datatype 'a Vector3 = Vector3 (vec_x: 'a) (vec_y: 'a) (vec_z: 'a)

text \<open>\<^verbatim>\<open>operator==\<close> of two \<^verbatim>\<open>Vector3\<close>: every pair of coefficients compares equal.\<close>

definition vector_eq :: "'a Scalar Vector3 \<Rightarrow> 'a Scalar Vector3 \<Rightarrow> bool" where
  "vector_eq u v \<longleftrightarrow>
     scalar_eq (vec_x u) (vec_x v) \<and> scalar_eq (vec_y u) (vec_y v) \<and>
     scalar_eq (vec_z u) (vec_z v)"

text \<open>\<^verbatim>\<open>Vector3ui\<close>, one triangle of \<^verbatim>\<open>m_indices\<close>: three unsigned vertex indices.\<close>

datatype Vector3ui = Vector3ui nat nat nat

type_synonym Index = int

definition Invalid :: Index where
  "Invalid = - 1"

text \<open>
  The conversion \<^verbatim>\<open>uint( i )\<close> of a signed 32-bit value: a negative value wraps to
  \<open>i + 2 ^ 32\<close>, so that \<^verbatim>\<open>uint( -1 )\<close> is \<open>4294967295\<close>.
\<close>

definition to_uint :: "int \<Rightarrow> nat" where
  "to_uint i = (if i < 0 then nat (i + 2 ^ 32) else nat i)"

record 'a TriangleMesh =
  vertices :: "'a Scalar Vector3 list"
  normals :: "'a Scalar Vector3 list"
  m_indices :: "Vector3ui list"

subsection \<open>Vector accesses and loops\<close>

definition at :: "'b list \<Rightarrow> nat \<Rightarrow> 'b option" where
  "at xs i = (if i < length xs then Some (xs ! i) else None)"

definition put :: "'b list \<Rightarrow> nat \<Rightarrow> 'b \<Rightarrow> 'b list option" where
  "put xs i v = (if i < length xs then Some (xs[i := v]) else None)"

fun for_loop :: "('i \<Rightarrow> 's \<Rightarrow> 's option) \<Rightarrow> 'i list \<Rightarrow> 's \<Rightarrow> 's option" where
  "for_loop body [] s = Some s"
| "for_loop body (i # is) s =
     (case body i s of None \<Rightarrow> None | Some s' \<Rightarrow> for_loop body is s')"

text \<open>A loop that computes one new element per element, in place or into a new vector.\<close>

fun for_each :: "('b \<Rightarrow> 'c option) \<Rightarrow> 'b list \<Rightarrow> 'c list option" where
  "for_each f [] = Some []"
| "for_each f (x # xs) =
     (case f x of None \<Rightarrow> None
      | Some y \<Rightarrow> (case for_each f xs of None \<Rightarrow> None | Some ys \<Rightarrow> Some (y # ys)))"

subsection \<open>The sort\<close>

text \<open>
  The comparator of line 626: lexicographic on \<open>(x, y, z)\<close> with exact comparisons,
  ties broken by the original index. The indices it compares are those of line 623, all
  valid, on which \<^verbatim>\<open>Index::operator<\<close> is the order of \<^verbatim>\<open>int\<close>.
\<close>

definition vertex_less ::
  "('a::linorder) Scalar Vector3 \<times> Index \<Rightarrow> 'a Scalar Vector3 \<times> Index \<Rightarrow> bool" where
  "vertex_less a b =
     (if scalar_eq (vec_x (fst a)) (vec_x (fst b)) then
        (if scalar_eq (vec_y (fst a)) (vec_y (fst b)) then
           (if scalar_eq (vec_z (fst a)) (vec_z (fst b)) then snd a < snd b
            else scalar_less (vec_z (fst a)) (vec_z (fst b)))
         else scalar_less (vec_y (fst a)) (vec_y (fst b)))
      else scalar_less (vec_x (fst a)) (vec_x (fst b)))"

text \<open>
  \<^verbatim>\<open>std::sort\<close> belongs to the C++ standard library. On the indexed vertices of a mesh
  without \<open>NaN\<close> the comparator is a strict total order, the postcondition of the sort
  (\<open>sorted_vertices\<close>) leaves one list only (lemma \<open>sorted_vertices_unique\<close>), and the
  algorithm is without effect. With a \<open>NaN\<close> coordinate the comparator of line 626 is not
  even a strict weak order and the standard promises nothing;
  the embedding then follows the insertion sort that the library runs on short ranges: each
  element in turn moves towards the front for as long as it is less than the element before
  it. The sorted prefix is held back to front, so that its head is that element.
\<close>

fun insert_desc :: "('b \<Rightarrow> 'b \<Rightarrow> bool) \<Rightarrow> 'b \<Rightarrow> 'b list \<Rightarrow> 'b list" where
  "insert_desc lt x [] = [x]"
| "insert_desc lt x (y # ys) = (if lt x y then y # insert_desc lt x ys else x # y # ys)"

definition std_sort :: "('b \<Rightarrow> 'b \<Rightarrow> bool) \<Rightarrow> 'b list \<Rightarrow> 'b list" where
  "std_sort lt xs = rev (fold (insert_desc lt) xs [])"

subsection \<open>findDuplicates\<close>

text \<open>Lines 620 to 624: slot \<open>i\<close> of the local vector receives vertex \<open>i\<close> and \<open>Index( i )\<close>.\<close>

definition index_vertices :: "'a TriangleMesh \<Rightarrow> ('a Scalar Vector3 \<times> Index) list" where
  "index_vertices mesh =
     map (\<lambda>i. (vertices mesh ! i, int i)) [0..<length (vertices mesh)]"

text \<open>One iteration of the loop of lines 645 to 654, on the sorted vector \<open>vs\<close>.\<close>

definition chain_step ::
  "('a Scalar Vector3 \<times> Index) list \<Rightarrow> nat \<Rightarrow> bool \<times> Index list \<Rightarrow>
   (bool \<times> Index list) option" where
  "chain_step vs i s =
     (case s of (hasDuplicates, duplicatesMap) \<Rightarrow>
      do {
        cur \<leftarrow> at vs i;
        prev \<leftarrow> at vs (i - 1);
        if vector_eq (fst cur) (fst prev) then
          do {
            d \<leftarrow> at duplicatesMap (to_uint (snd prev));
            duplicatesMap' \<leftarrow> put duplicatesMap (to_uint (snd cur)) d;
            Some (True, duplicatesMap')
          }
        else
          do {
            duplicatesMap' \<leftarrow> put duplicatesMap (to_uint (snd cur)) (snd cur);
            Some (hasDuplicates, duplicatesMap')
          }
      })"

text \<open>
  Lines 613 to 616 and 644 to 656, on the sorted vector \<open>vs\<close>: the map starts as
  \<open>numVerts\<close> invalid entries, the first sorted element stands for itself, and the
  loop chains the others. The read \<^verbatim>\<open>vertices[0]\<close> is not guarded.
\<close>

definition chain_duplicates ::
  "nat \<Rightarrow> ('a Scalar Vector3 \<times> Index) list \<Rightarrow> (bool \<times> Index list) option" where
  "chain_duplicates numVerts vs =
     (let hasDuplicates = False;
          duplicatesMap = replicate numVerts Invalid
      in do {
        first \<leftarrow> at vs 0;
        duplicatesMap \<leftarrow> put duplicatesMap (to_uint (snd first)) (snd first);
        for_loop (chain_step vs) [1..<numVerts] (hasDuplicates, duplicatesMap)
      })"

text \<open>
  The function returns its \<^verbatim>\<open>bool\<close> and leaves the map in the reference parameter
  \<^verbatim>\<open>duplicatesMap\<close>; the embedding returns the pair.
\<close>

definition findDuplicates :: "('a::linorder) TriangleMesh \<Rightarrow> (bool \<times> Index list) option" where
  "findDuplicates mesh =
     (let numVerts = length (vertices mesh);
          vs = index_vertices mesh;
          vs = std_sort vertex_less vs
      in chain_duplicates numVerts vs)"

subsection \<open>removeDuplicates\<close>

text \<open>One iteration of the loop of lines 667 to 675.\<close>

definition collect_step ::
  "'a TriangleMesh \<Rightarrow> Index list \<Rightarrow> nat \<Rightarrow>
   Index list \<times> 'a Scalar Vector3 list \<times> 'a Scalar Vector3 list \<Rightarrow>
   (Index list \<times> 'a Scalar Vector3 list \<times> 'a Scalar Vector3 list) option" where
  "collect_step mesh duplicatesMap i s =
     (case s of (newIndices, uniqueVertices, uniqueNormals) \<Rightarrow>
      do {
        d \<leftarrow> at duplicatesMap i;
        if d = int i then
          do {
            newIndices' \<leftarrow> put newIndices i (int (length uniqueVertices));
            v \<leftarrow> at (vertices mesh) i;
            n \<leftarrow> at (normals mesh) i;
            Some (newIndices', uniqueVertices @ [v], uniqueNormals @ [n])
          }
        else Some (newIndices, uniqueVertices, uniqueNormals)
      })"

text \<open>Lines 664 to 675: the new index of every kept vertex, the kept positions and normals.\<close>

definition collect_unique ::
  "'a TriangleMesh \<Rightarrow> Index list \<Rightarrow>
   (Index list \<times> 'a Scalar Vector3 list \<times> 'a Scalar Vector3 list) option" where
  "collect_unique mesh duplicatesMap =
     (let numVerts = length (vertices mesh)
      in for_loop (collect_step mesh duplicatesMap) [0..<numVerts]
           (replicate numVerts Invalid, [], []))"

text \<open>Lines 683 to 685, for one corner \<open>oldIdx\<close> of a triangle.\<close>

definition rewrite_index :: "Index list \<Rightarrow> Index list \<Rightarrow> nat \<Rightarrow> nat option" where
  "rewrite_index duplicatesMap newIndices oldIdx =
     do {
       d \<leftarrow> at duplicatesMap oldIdx;
       newIdx \<leftarrow> at newIndices (to_uint d);
       Some (to_uint newIdx)
     }"

text \<open>The inner loop of lines 681 to 686: the corners \<open>j = 0, 1, 2\<close> of one triangle.\<close>

fun rewrite_triangle :: "Index list \<Rightarrow> Index list \<Rightarrow> Vector3ui \<Rightarrow> Vector3ui option" where
  "rewrite_triangle duplicatesMap newIndices (Vector3ui a b c) =
     do {
       a' \<leftarrow> rewrite_index duplicatesMap newIndices a;
       b' \<leftarrow> rewrite_index duplicatesMap newIndices b;
       c' \<leftarrow> rewrite_index duplicatesMap newIndices c;
       Some (Vector3ui a' b' c')
     }"

text \<open>Line 692, for one vertex \<open>i\<close>.\<close>

definition remap_index :: "Index list \<Rightarrow> Index list \<Rightarrow> nat \<Rightarrow> Index option" where
  "remap_index duplicatesMap newIndices i =
     do {
       d \<leftarrow> at duplicatesMap i;
       at newIndices (to_uint d)
     }"

text \<open>
  The function mutates \<^verbatim>\<open>mesh\<close> and fills \<^verbatim>\<open>vertexMap\<close>; the embedding returns the
  new mesh and the vertex map.
\<close>

definition removeDuplicates ::
  "('a::linorder) TriangleMesh \<Rightarrow> ('a TriangleMesh \<times> Index list) option" where
  "removeDuplicates mesh =
     do {
       (hasDuplicates, duplicatesMap) \<leftarrow> findDuplicates mesh;
       let numVerts = length (vertices mesh);
       (newIndices, uniqueVertices, uniqueNormals) \<leftarrow> collect_unique mesh duplicatesMap;
       indices' \<leftarrow> for_each (rewrite_triangle duplicatesMap newIndices) (m_indices mesh);
       vertexMap \<leftarrow> for_each (remap_index duplicatesMap newIndices) [0..<numVerts];
       Some (mesh\<lparr>vertices := uniqueVertices, normals := uniqueNormals, m_indices := indices'\<rparr>,
             vertexMap)
     }"

subsection \<open>findDuplicates under any schedule and any sort\<close>





section \<open>Vocabulary of the statements\<close>

text \<open>A position none of whose coordinates is \<open>NaN\<close>, and a mesh all of whose positions are such
  (\<open>nan_free\<close>). The normals are not concerned.\<close>

definition no_nan :: "'a Scalar Vector3 \<Rightarrow> bool" where
  "no_nan v \<longleftrightarrow> vec_x v \<noteq> NaN \<and> vec_y v \<noteq> NaN \<and> vec_z v \<noteq> NaN"

text \<open>The smallest index at which \<open>x\<close> stands in \<open>xs\<close> (the length of \<open>xs\<close> when it does not occur).\<close>

definition first_index :: "'b list \<Rightarrow> 'b \<Rightarrow> nat" where
  "first_index xs x = length (takeWhile (\<lambda>y. y \<noteq> x) xs)"

definition nan_free :: "'a TriangleMesh \<Rightarrow> bool" where
  "nan_free mesh \<longleftrightarrow> (\<forall>v\<in>set (vertices mesh). no_nan v)"



text \<open>The invariant of the loop of lines 645 to 654 before iteration \<open>k\<close>, on any permutation
  \<open>vs\<close> of the indexed vertices: the entry of each of the first \<open>k\<close> elements is the index of one
  of them, which has the same position and is its own entry; the flag is set when one of them
  is not its own entry.\<close>

definition chain_inv_any ::
  "'a TriangleMesh \<Rightarrow> ('a Scalar Vector3 \<times> Index) list \<Rightarrow> nat \<Rightarrow> bool \<times> Index list \<Rightarrow> bool" where
  "chain_inv_any mesh vs k s \<longleftrightarrow>
     (case s of (h, dm) \<Rightarrow>
        length dm = length (vertices mesh) \<and>
        (\<forall>j<k. \<exists>l<k. dm ! to_uint (snd (vs ! j)) = snd (vs ! l) \<and>
                      dm ! to_uint (snd (vs ! l)) = snd (vs ! l) \<and>
                      fst (vs ! l) = fst (vs ! j)) \<and>
        (h \<longleftrightarrow> (\<exists>j<k. dm ! to_uint (snd (vs ! j)) \<noteq> snd (vs ! j))))"


text \<open>The three indices of a triangle.\<close>

fun corners :: "Vector3ui \<Rightarrow> nat list" where
  "corners (Vector3ui a b c) = [a, b, c]"

fun map_corners :: "(nat \<Rightarrow> nat) \<Rightarrow> Vector3ui \<Rightarrow> Vector3ui" where
  "map_corners f (Vector3ui a b c) = Vector3ui (f a) (f b) (f c)"

text \<open>The invariant of the data model before a call: as many normals as vertices, and every
  triangle index below the number of vertices.\<close>

definition mesh_ok :: "'a TriangleMesh \<Rightarrow> bool" where
  "mesh_ok mesh \<longleftrightarrow>
     length (normals mesh) = length (vertices mesh) \<and>
     (\<forall>t\<in>set (m_indices mesh). \<forall>a\<in>set (corners t). a < length (vertices mesh))"

text \<open>For a duplicate map read as a function \<open>r\<close> (\<open>r i\<close> is the entry of vertex \<open>i\<close>): the
  vertices below \<open>k\<close> that are their own entries, in index order, and the number \<open>rank r i\<close> of
  those below \<open>i\<close>.\<close>

definition kept_upto :: "(nat \<Rightarrow> nat) \<Rightarrow> nat \<Rightarrow> nat list" where
  "kept_upto r k = filter (\<lambda>i. r i = i) [0..<k]"

definition rank :: "(nat \<Rightarrow> nat) \<Rightarrow> nat \<Rightarrow> nat" where
  "rank r i = length (kept_upto r i)"

text \<open>The vector \<^verbatim>\<open>newIndices\<close> after the iterations below \<open>k\<close> of the loop of line 667.\<close>

definition new_indices_upto :: "(nat \<Rightarrow> nat) \<Rightarrow> nat \<Rightarrow> nat \<Rightarrow> Index list" where
  "new_indices_upto r n k =
     map (\<lambda>i. if i < k \<and> r i = i then int (rank r i) else Invalid) [0..<n]"

text \<open>The mesh and the vertex map that \<^verbatim>\<open>removeDuplicates\<close> leaves, from the duplicate map \<open>r\<close>.\<close>

definition compacted ::
  "'a TriangleMesh \<Rightarrow> (nat \<Rightarrow> nat) \<Rightarrow> 'a TriangleMesh \<times> Index list" where
  "compacted mesh r =
     (mesh\<lparr>vertices := map (\<lambda>i. vertices mesh ! i) (kept_upto r (length (vertices mesh))),
           normals := map (\<lambda>i. normals mesh ! i) (kept_upto r (length (vertices mesh))),
           m_indices := map (map_corners (\<lambda>a. rank r (r a))) (m_indices mesh)\<rparr>,
      map (\<lambda>i. int (rank r (r i))) [0..<length (vertices mesh)])"

subsection \<open>Concrete meshes\<close>

text \<open>Concrete meshes, with integer coordinates: the mesh without vertices, the scenario of the
  specification, a mesh whose vertices 5, 9 and 20 share the position \<open>(1, 2, 3)\<close>, a mesh whose
  equal positions carry different normals, and a mesh with a \<open>NaN\<close> between two equal positions.\<close>

definition point :: "int \<Rightarrow> int \<Rightarrow> int \<Rightarrow> int Scalar Vector3" where
  "point a b c = Vector3 (Num a) (Num b) (Num c)"

definition empty_mesh :: "int TriangleMesh" where
  "empty_mesh = \<lparr>vertices = [], normals = [], m_indices = []\<rparr>"

definition scenario_mesh :: "int TriangleMesh" where
  "scenario_mesh =
     \<lparr>vertices = [point 0 0 0, point 1 0 0, point 0 0 0, point 1 1 0],
      normals = [point 0 0 1, point 0 0 1, point 0 0 1, point 0 0 1],
      m_indices = [Vector3ui 0 1 2]\<rparr>"

definition chain_mesh :: "int TriangleMesh" where
  "chain_mesh =
     \<lparr>vertices = map (\<lambda>i. if i = 5 \<or> i = 9 \<or> i = 20 then point 1 2 3 else point (int i) 0 0)
                   [0..<21],
      normals = map (\<lambda>i. point 0 0 (int i)) [0..<21],
      m_indices = [Vector3ui 5 9 20, Vector3ui 0 9 20]\<rparr>"

definition seam_mesh :: "int TriangleMesh" where
  "seam_mesh =
     \<lparr>vertices = [point 2 0 0, point 0 0 0, point 0 0 0, point 2 0 0],
      normals = [point 1 0 0, point 0 1 0, point 0 0 1, point 0 1 1],
      m_indices = [Vector3ui 3 2 1]\<rparr>"


section \<open>Lemmas\<close>

subsection \<open>Accesses, loops, the comparator and the sort\<close>

lemma to_uint_int [simp]: "to_uint (int i) = i"
  by (simp add: to_uint_def)

lemma at_Some [simp]: "i < length xs \<Longrightarrow> at xs i = Some (xs ! i)"
  by (simp add: at_def)

lemma put_Some [simp]: "i < length xs \<Longrightarrow> put xs i v = Some (xs[i := v])"
  by (simp add: put_def)

lemma for_loop_append:
  "for_loop body (xs @ ys) s =
     (case for_loop body xs s of None \<Rightarrow> None | Some s' \<Rightarrow> for_loop body ys s')"
  by (induction xs arbitrary: s) (auto split: option.splits)

lemma for_each_map:
  "(\<And>x. x \<in> set xs \<Longrightarrow> f x = Some (g x)) \<Longrightarrow> for_each f xs = Some (map g xs)"
  by (induction xs) auto

lemma scalar_eq_iff: "scalar_eq a b \<longleftrightarrow> a \<noteq> NaN \<and> b \<noteq> NaN \<and> a = b"
  by (cases a; cases b) auto



lemma vector_eq_iff: "vector_eq u v \<longleftrightarrow> no_nan u \<and> u = v"
  by (auto simp: vector_eq_def scalar_eq_iff no_nan_def Vector3.expand)








lemma mset_insert_desc: "mset (insert_desc lt x ys) = add_mset x (mset ys)"
  by (induction ys) auto


lemma mset_fold_insert_desc: "mset (fold (insert_desc lt) xs acc) = mset xs + mset acc"
  by (induction xs arbitrary: acc) (auto simp: mset_insert_desc)

lemma mset_std_sort: "mset (std_sort lt xs) = mset xs"
  by (simp add: std_sort_def mset_fold_insert_desc)





subsection \<open>The first index of a value\<close>

lemma first_index_le: "i < length xs \<Longrightarrow> first_index xs (xs ! i) \<le> i"
proof (rule ccontr)
  assume i: "i < length xs" and "\<not> first_index xs (xs ! i) \<le> i"
  then have "i < length (takeWhile (\<lambda>y. y \<noteq> xs ! i) xs)"
    by (simp add: first_index_def)
  then have "takeWhile (\<lambda>y. y \<noteq> xs ! i) xs ! i \<in> set (takeWhile (\<lambda>y. y \<noteq> xs ! i) xs)"
    by (rule nth_mem)
  moreover have "takeWhile (\<lambda>y. y \<noteq> xs ! i) xs ! i = xs ! i"
    using \<open>i < length (takeWhile (\<lambda>y. y \<noteq> xs ! i) xs)\<close> by (rule takeWhile_nth)
  ultimately show False
    by (auto dest: set_takeWhileD)
qed

lemma first_index_nth: "i < length xs \<Longrightarrow> xs ! first_index xs (xs ! i) = xs ! i"
proof -
  assume i: "i < length xs"
  then have "length (takeWhile (\<lambda>y. y \<noteq> xs ! i) xs) < length xs"
    using first_index_le [OF i] by (simp add: first_index_def)
  then have "\<not> (xs ! length (takeWhile (\<lambda>y. y \<noteq> xs ! i) xs) \<noteq> xs ! i)"
    by (rule nth_length_takeWhile)
  then show ?thesis by (simp add: first_index_def)
qed



lemma first_index_idem:
  "i < length xs \<Longrightarrow> first_index xs (xs ! first_index xs (xs ! i)) = first_index xs (xs ! i)"
  by (simp add: first_index_nth)



subsection \<open>The sorted vector\<close>

lemma distinct_index_vertices: "distinct (index_vertices mesh)"
  by (auto simp: index_vertices_def distinct_map intro!: inj_onI)

lemma set_index_vertices:
  "set (index_vertices mesh) = (\<lambda>i. (vertices mesh ! i, int i)) ` {..<length (vertices mesh)}"
  by (auto simp: index_vertices_def)


subsection \<open>Any permutation of the indexed vertices\<close>

lemma permuted_length:
  "mset vs = mset (index_vertices mesh) \<Longrightarrow> length vs = length (vertices mesh)"
  by (metis size_mset index_vertices_def length_map length_upt minus_nat.diff_0)

lemma permuted_nth:
  assumes "mset vs = mset (index_vertices mesh)" and "k < length (vertices mesh)"
  shows "\<exists>i<length (vertices mesh). vs ! k = (vertices mesh ! i, int i)"
proof -
  have "vs ! k \<in> set vs"
    using assms by (simp add: permuted_length)
  then have "vs ! k \<in> set (index_vertices mesh)"
    using assms(1) by (metis set_mset_mset)
  then show ?thesis
    by (auto simp: set_index_vertices)
qed

lemma permuted_find:
  assumes "mset vs = mset (index_vertices mesh)" and "i < length (vertices mesh)"
  shows "\<exists>k<length (vertices mesh). vs ! k = (vertices mesh ! i, int i)"
proof -
  have "(vertices mesh ! i, int i) \<in> set (index_vertices mesh)"
    using assms(2) by (auto simp: set_index_vertices)
  then have "(vertices mesh ! i, int i) \<in> set vs"
    using assms(1) by (metis set_mset_mset)
  then show ?thesis
    using permuted_length [OF assms(1)] by (metis in_set_conv_nth)
qed

lemma permuted_index_inj:
  assumes pm: "mset vs = mset (index_vertices mesh)"
    and jk: "j < k" "k < length (vertices mesh)"
    and vk: "vs ! k = (p, i)" and vj: "vs ! j = (q, i)"
  shows False
proof -
  obtain a where "a < length (vertices mesh)" "vs ! k = (vertices mesh ! a, int a)"
    using permuted_nth [OF pm jk(2)] by blast
  moreover have "j < length (vertices mesh)"
    using jk by simp
  then obtain b where "b < length (vertices mesh)" "vs ! j = (vertices mesh ! b, int b)"
    using permuted_nth [OF pm] by blast
  ultimately have "vs ! j = vs ! k"
    using vk vj by auto
  moreover have "distinct vs"
    using pm distinct_index_vertices [of mesh] by (metis mset_eq_imp_distinct_iff)
  ultimately show False
    using jk permuted_length [OF pm] by (simp add: nth_eq_iff_index_eq)
qed

subsection \<open>The sorted vector of a mesh without NaN\<close>










subsection \<open>The chaining loop\<close>



subsection \<open>The loop on any permutation\<close>

lemma chain_step_inv_any:
  assumes pm: "mset vs = mset (index_vertices mesh)"
    and k: "0 < k" "k < length (vertices mesh)"
    and inv: "chain_inv_any mesh vs k (h, dm)"
  shows "\<exists>s'. chain_step vs k (h, dm) = Some s' \<and> chain_inv_any mesh vs (Suc k) s'"
proof -
  let ?V = "vertices mesh"
  let ?ix = "\<lambda>j. to_uint (snd (vs ! j))"
  obtain c where c: "c < length ?V" and vk: "vs ! k = (?V ! c, int c)"
    using permuted_nth [OF pm k(2)] by blast
  have k1: "k - 1 < length ?V" "k - 1 < k"
    using k by simp_all
  then obtain p where p: "p < length ?V" and vp: "vs ! (k - 1) = (?V ! p, int p)"
    using permuted_nth [OF pm] by blast
  have len: "length vs = length ?V" "length dm = length ?V"
    using permuted_length [OF pm] inv by (simp_all add: chain_inv_any_def)
  have other: "?ix l \<noteq> c" "snd (vs ! l) \<noteq> int c" if l: "l < k" for l
  proof -
    have "l < length ?V"
      using l k by simp
    then obtain a where a: "a < length ?V" "vs ! l = (?V ! a, int a)"
      using permuted_nth [OF pm] by blast
    have "a \<noteq> c"
    proof
      assume "a = c"
      with a have "vs ! l = (?V ! a, int c)" by simp
      with permuted_index_inj [OF pm l k(2) vk] show False by blast
    qed
    with a show "?ix l \<noteq> c" "snd (vs ! l) \<noteq> int c" by simp_all
  qed
  have old: "\<exists>l<k. dm ! ?ix j = snd (vs ! l) \<and> dm ! ?ix l = snd (vs ! l) \<and> fst (vs ! l) = fst (vs ! j)"
    if "j < k" for j
    using inv that by (simp add: chain_inv_any_def)
  have hdef: "h \<longleftrightarrow> (\<exists>j<k. dm ! ?ix j \<noteq> snd (vs ! j))"
    using inv by (simp add: chain_inv_any_def)
  have atk: "at vs k = Some (?V ! c, int c)"
    using k(2) len(1) vk by simp
  have atp: "at vs (k - Suc 0) = Some (?V ! p, int p)"
    using k1 len(1) vp by simp
  show ?thesis
  proof (cases "vector_eq (?V ! c) (?V ! p)")
    case True
    have step: "chain_step vs k (h, dm) = Some (True, dm[c := dm ! p])"
      using c p len(2) by (simp add: chain_step_def atk atp True)
    obtain l where l: "l < k" and dl: "dm ! p = snd (vs ! l)" "dm ! ?ix l = snd (vs ! l)"
      and fl: "fst (vs ! l) = ?V ! p"
      using old [OF k1(2)] vp by auto
    have fl': "fst (vs ! l) = ?V ! c"
      using fl True by (simp add: vector_eq_iff)
    have "chain_inv_any mesh vs (Suc k) (True, dm[c := dm ! p])"
      unfolding chain_inv_any_def
    proof (simp only: prod.case, intro conjI allI impI)
      show "length (dm[c := dm ! p]) = length ?V"
        using len by simp
    next
      fix j assume "j < Suc k"
      then consider "j = k" | "j < k" by linarith
      then show "\<exists>m<Suc k. dm[c := dm ! p] ! ?ix j = snd (vs ! m) \<and>
                   dm[c := dm ! p] ! ?ix m = snd (vs ! m) \<and> fst (vs ! m) = fst (vs ! j)"
      proof cases
        case 1
        have "dm[c := dm ! p] ! ?ix k = snd (vs ! l)"
          using vk c len dl by simp
        moreover have "dm[c := dm ! p] ! ?ix l = snd (vs ! l)"
          using other(1) [OF l] dl by simp
        ultimately show ?thesis
          using 1 l fl' vk by (intro exI [of _ l]) simp
      next
        case 2
        obtain m where m: "m < k" "dm ! ?ix j = snd (vs ! m)" "dm ! ?ix m = snd (vs ! m)"
          "fst (vs ! m) = fst (vs ! j)"
          using old [OF 2] by blast
        then show ?thesis
          using other(1) [OF 2] other(1) [OF m(1)] by (intro exI [of _ m]) simp
      qed
    next
      have "dm[c := dm ! p] ! ?ix k = snd (vs ! l)"
        using vk c len dl by simp
      moreover have "snd (vs ! l) \<noteq> snd (vs ! k)"
        using other(2) [OF l] vk by simp
      ultimately show "True = (\<exists>j<Suc k. dm[c := dm ! p] ! ?ix j \<noteq> snd (vs ! j))"
        by (auto intro!: exI [of _ k])
    qed
    with step show ?thesis by blast
  next
    case False
    have step: "chain_step vs k (h, dm) = Some (h, dm[c := int c])"
      using c len(2) by (simp add: chain_step_def atk atp False)
    have "chain_inv_any mesh vs (Suc k) (h, dm[c := int c])"
      unfolding chain_inv_any_def
    proof (simp only: prod.case, intro conjI allI impI)
      show "length (dm[c := int c]) = length ?V"
        using len by simp
    next
      fix j assume "j < Suc k"
      then consider "j = k" | "j < k" by linarith
      then show "\<exists>m<Suc k. dm[c := int c] ! ?ix j = snd (vs ! m) \<and>
                   dm[c := int c] ! ?ix m = snd (vs ! m) \<and> fst (vs ! m) = fst (vs ! j)"
      proof cases
        case 1
        then show ?thesis
          using vk c len by (intro exI [of _ k]) simp
      next
        case 2
        obtain m where m: "m < k" "dm ! ?ix j = snd (vs ! m)" "dm ! ?ix m = snd (vs ! m)"
          "fst (vs ! m) = fst (vs ! j)"
          using old [OF 2] by blast
        then show ?thesis
          using other(1) [OF 2] other(1) [OF m(1)] by (intro exI [of _ m]) simp
      qed
    next
      have "dm[c := int c] ! ?ix k = snd (vs ! k)"
        using vk c len by simp
      moreover have "dm[c := int c] ! ?ix j = dm ! ?ix j" if "j < k" for j
        using other(1) [OF that] by simp
      ultimately show "h = (\<exists>j<Suc k. dm[c := int c] ! ?ix j \<noteq> snd (vs ! j))"
        using hdef by (auto simp: less_Suc_eq)
    qed
    with step show ?thesis by blast
  qed
qed

lemma chain_loop_inv_any:
  assumes pm: "mset vs = mset (index_vertices mesh)"
    and inv: "chain_inv_any mesh vs 1 s"
  shows "0 < m \<Longrightarrow> m \<le> length (vertices mesh) \<Longrightarrow>
         \<exists>s'. for_loop (chain_step vs) [1..<m] s = Some s' \<and> chain_inv_any mesh vs m s'"
proof (induction m)
  case 0
  then show ?case by simp
next
  case (Suc m)
  show ?case
  proof (cases "m = 0")
    case True
    with inv show ?thesis by simp
  next
    case False
    with Suc obtain s' where s': "for_loop (chain_step vs) [1..<m] s = Some s'"
      and inv': "chain_inv_any mesh vs m s'"
      by auto
    obtain h dm where hd: "s' = (h, dm)" by (cases s')
    obtain s'' where "chain_step vs m (h, dm) = Some s''" "chain_inv_any mesh vs (Suc m) s''"
      using chain_step_inv_any [OF pm, of m h dm] False Suc.prems inv' hd by auto
    moreover have "[1..<Suc m] = [1..<m] @ [m]"
      using False by simp
    ultimately show ?thesis
      using s' hd by (simp add: for_loop_append)
  qed
qed

text \<open>
  What the walk returns on any permutation of the indexed vertices: every entry is the index
  of a vertex of the same position that is its own entry, and the flag tells whether some
  vertex is not its own entry.
\<close>

lemma chain_duplicates_any:
  assumes pm: "mset vs = mset (index_vertices mesh)"
    and ne: "vertices mesh \<noteq> []"
  shows "\<exists>h dm. chain_duplicates (length (vertices mesh)) vs = Some (h, dm) \<and>
           length dm = length (vertices mesh) \<and>
           (\<forall>i<length (vertices mesh). \<exists>r<length (vertices mesh).
              dm ! i = int r \<and> dm ! r = int r \<and> vertices mesh ! r = vertices mesh ! i) \<and>
           (h \<longleftrightarrow> (\<exists>i<length (vertices mesh). dm ! i \<noteq> int i))"
proof -
  let ?V = "vertices mesh"
  let ?n = "length ?V"
  have n: "0 < ?n" using ne by simp
  obtain c where c: "c < ?n" and v0: "vs ! 0 = (?V ! c, int c)"
    using permuted_nth [OF pm n] by blast
  have len: "length vs = ?n"
    by (rule permuted_length [OF pm])
  have inv1: "chain_inv_any mesh vs 1 (False, (replicate ?n Invalid)[c := int c])"
    using v0 c by (simp add: chain_inv_any_def)
  obtain h dm where loop: "for_loop (chain_step vs) [1..<?n] (False, (replicate ?n Invalid)[c := int c]) = Some (h, dm)"
    and inv: "chain_inv_any mesh vs ?n (h, dm)"
    using chain_loop_inv_any [OF pm inv1, of ?n] n by auto
  have run: "chain_duplicates ?n vs = Some (h, dm)"
    using n len v0 c loop by (simp add: chain_duplicates_def Let_def)
  have dm_len: "length dm = ?n"
    using inv by (simp add: chain_inv_any_def)
  have entry: "\<exists>r<?n. dm ! i = int r \<and> dm ! r = int r \<and> ?V ! r = ?V ! i" if i: "i < ?n" for i
  proof -
    obtain k where k: "k < ?n" "vs ! k = (?V ! i, int i)"
      using permuted_find [OF pm i] by blast
    then obtain l where l: "l < ?n" "dm ! i = snd (vs ! l)"
      "dm ! to_uint (snd (vs ! l)) = snd (vs ! l)" "fst (vs ! l) = ?V ! i"
      using inv by (auto simp: chain_inv_any_def)
    obtain r where "r < ?n" "vs ! l = (?V ! r, int r)"
      using permuted_nth [OF pm l(1)] by blast
    with l show ?thesis
      by (intro exI [of _ r]) simp
  qed
  have "h \<longleftrightarrow> (\<exists>i<?n. dm ! i \<noteq> int i)"
  proof
    assume h
    then obtain k where k: "k < ?n" "dm ! to_uint (snd (vs ! k)) \<noteq> snd (vs ! k)"
      using inv by (auto simp: chain_inv_any_def)
    obtain a where "a < ?n" "vs ! k = (?V ! a, int a)"
      using permuted_nth [OF pm k(1)] by blast
    with k show "\<exists>i<?n. dm ! i \<noteq> int i" by auto
  next
    assume "\<exists>i<?n. dm ! i \<noteq> int i"
    then obtain a where a: "a < ?n" "dm ! a \<noteq> int a" by blast
    obtain k where "k < ?n" "vs ! k = (?V ! a, int a)"
      using permuted_find [OF pm a(1)] by blast
    with a show h
      using inv by (auto simp: chain_inv_any_def)
  qed
  with run dm_len entry show ?thesis
    by blast
qed

lemma findDuplicates_any:
  assumes "vertices mesh \<noteq> []"
  shows "\<exists>h dm. findDuplicates mesh = Some (h, dm) \<and>
           length dm = length (vertices mesh) \<and>
           (\<forall>i<length (vertices mesh). \<exists>r<length (vertices mesh).
              dm ! i = int r \<and> dm ! r = int r \<and> vertices mesh ! r = vertices mesh ! i) \<and>
           (h \<longleftrightarrow> (\<exists>i<length (vertices mesh). dm ! i \<noteq> int i))"
  unfolding findDuplicates_def Let_def
  by (rule chain_duplicates_any [OF mset_std_sort assms])

lemma findDuplicates_empty: "vertices mesh = [] \<Longrightarrow> findDuplicates mesh = None"
  by (simp add: findDuplicates_def chain_duplicates_def index_vertices_def std_sort_def at_def)

subsection \<open>The chaining loop on a sorted vector without NaN\<close>





subsection \<open>The compaction loops\<close>

lemma kept_upto_Suc:
  "kept_upto r (Suc k) = (if r k = k then kept_upto r k @ [k] else kept_upto r k)"
  by (simp add: kept_upto_def)

lemma new_indices_upto_Suc:
  assumes "k < n"
  shows "new_indices_upto r n (Suc k) =
         (if r k = k then (new_indices_upto r n k)[k := int (rank r k)]
          else new_indices_upto r n k)"
proof (cases "r k = k")
  case True
  have "new_indices_upto r n (Suc k) = (new_indices_upto r n k)[k := int (rank r k)]"
  proof (rule nth_equalityI)
    show "length (new_indices_upto r n (Suc k)) = length ((new_indices_upto r n k)[k := int (rank r k)])"
      by (simp add: new_indices_upto_def)
  next
    fix i assume "i < length (new_indices_upto r n (Suc k))"
    then have i: "i < n"
      by (simp add: new_indices_upto_def)
    show "new_indices_upto r n (Suc k) ! i = (new_indices_upto r n k)[k := int (rank r k)] ! i"
    proof (cases "i = k")
      case True
      with i \<open>r k = k\<close> show ?thesis
        by (simp add: new_indices_upto_def)
    next
      case False
      with i show ?thesis
        by (simp add: new_indices_upto_def less_Suc_eq)
    qed
  qed
  with True show ?thesis by simp
next
  case False
  have "new_indices_upto r n (Suc k) = new_indices_upto r n k"
    by (rule nth_equalityI) (use False in \<open>auto simp: new_indices_upto_def less_Suc_eq\<close>)
  with False show ?thesis by simp
qed

lemma collect_loop_closed:
  assumes dm: "duplicatesMap = map (\<lambda>i. int (r i)) [0..<length (vertices mesh)]"
    and ns: "length (normals mesh) = length (vertices mesh)"
  shows "k \<le> length (vertices mesh) \<Longrightarrow>
         for_loop (collect_step mesh duplicatesMap) [0..<k]
           (replicate (length (vertices mesh)) Invalid, [], []) =
         Some (new_indices_upto r (length (vertices mesh)) k,
               map (\<lambda>i. vertices mesh ! i) (kept_upto r k),
               map (\<lambda>i. normals mesh ! i) (kept_upto r k))"
proof (induction k)
  case 0
  have "new_indices_upto r (length (vertices mesh)) 0 = replicate (length (vertices mesh)) Invalid"
    by (rule nth_equalityI) (simp_all add: new_indices_upto_def)
  then show ?case by (simp add: kept_upto_def)
next
  case (Suc k)
  let ?V = "vertices mesh"
  have k: "k < length ?V" using Suc.prems by simp
  have d: "at duplicatesMap k = Some (int (r k))"
    using k dm by simp
  have len: "length (new_indices_upto r (length ?V) k) = length ?V"
    by (simp add: new_indices_upto_def)
  have step: "collect_step mesh duplicatesMap k
                (new_indices_upto r (length ?V) k,
                 map (\<lambda>i. ?V ! i) (kept_upto r k),
                 map (\<lambda>i. normals mesh ! i) (kept_upto r k)) =
              Some (new_indices_upto r (length ?V) (Suc k),
                    map (\<lambda>i. ?V ! i) (kept_upto r (Suc k)),
                    map (\<lambda>i. normals mesh ! i) (kept_upto r (Suc k)))"
    using k ns len
    by (simp add: collect_step_def d kept_upto_Suc new_indices_upto_Suc rank_def)
  have "[0..<Suc k] = [0..<k] @ [k]" by simp
  then show ?case
    using Suc.IH k step by (simp add: for_loop_append del: upt_Suc)
qed

lemma collect_unique_closed:
  assumes "duplicatesMap = map (\<lambda>i. int (r i)) [0..<length (vertices mesh)]"
    and "length (normals mesh) = length (vertices mesh)"
  shows "collect_unique mesh duplicatesMap =
         Some (new_indices_upto r (length (vertices mesh)) (length (vertices mesh)),
               map (\<lambda>i. vertices mesh ! i) (kept_upto r (length (vertices mesh))),
               map (\<lambda>i. normals mesh ! i) (kept_upto r (length (vertices mesh))))"
  using collect_loop_closed [OF assms, of "length (vertices mesh)"]
  by (simp add: collect_unique_def Let_def)

text \<open>A kept index \<open>i\<close> stands at position \<open>rank r i\<close> of the kept list.\<close>

lemma kept_rank:
  assumes "i < n" and "r i = i"
  shows "rank r i < length (kept_upto r n) \<and> kept_upto r n ! rank r i = i"
proof -
  let ?P = "\<lambda>i. r i = i"
  have "[0..<n] = [0..<i] @ i # [Suc i..<n]"
    using assms(1) by (metis upt_conv_Cons upt_add_eq_append le0 add.commute add_0 le_add_diff_inverse less_imp_le_nat)
  then have "kept_upto r n = filter ?P [0..<i] @ i # filter ?P [Suc i..<n]"
    using assms(2) by (simp add: kept_upto_def)
  then show ?thesis
    by (simp add: rank_def kept_upto_def nth_append)
qed

lemma new_indices_nth:
  "i < n \<Longrightarrow> r i = i \<Longrightarrow> new_indices_upto r n n ! i = int (rank r i)"
  by (simp add: new_indices_upto_def)

lemma rewrite_index_closed:
  assumes "a < n" and "r a < n" and "r (r a) = r a"
  shows "rewrite_index (map (\<lambda>i. int (r i)) [0..<n]) (new_indices_upto r n n) a =
         Some (rank r (r a))"
proof -
  have "length (new_indices_upto r n n) = n"
    by (simp add: new_indices_upto_def)
  then show ?thesis
    using assms new_indices_nth [of "r a" n r]
    by (simp add: rewrite_index_def)
qed

lemma remap_index_closed:
  assumes "a < n" and "r a < n" and "r (r a) = r a"
  shows "remap_index (map (\<lambda>i. int (r i)) [0..<n]) (new_indices_upto r n n) a =
         Some (int (rank r (r a)))"
proof -
  have "length (new_indices_upto r n n) = n"
    by (simp add: new_indices_upto_def)
  then show ?thesis
    using assms new_indices_nth [of "r a" n r]
    by (simp add: remap_index_def)
qed

lemma rewrite_triangle_closed:
  assumes "\<forall>a\<in>set (corners t). a < n \<and> r a < n \<and> r (r a) = r a"
  shows "rewrite_triangle (map (\<lambda>i. int (r i)) [0..<n]) (new_indices_upto r n n) t =
         Some (map_corners (\<lambda>a. rank r (r a)) t)"
  using assms by (cases t) (simp add: rewrite_index_closed)

text \<open>
  The closed form of the whole call, from the map that \<open>findDuplicates\<close> returned: \<open>r i\<close> is
  the entry of vertex \<open>i\<close>, and every entry is its own entry.
\<close>

lemma removeDuplicates_from_map:
  assumes ok: "mesh_ok mesh"
    and fd: "findDuplicates mesh = Some (h, map (\<lambda>i. int (r i)) [0..<length (vertices mesh)])"
    and rr: "\<forall>i<length (vertices mesh). r i < length (vertices mesh) \<and> r (r i) = r i"
  shows "removeDuplicates mesh = Some (compacted mesh r)"
proof -
  let ?V = "vertices mesh"
  let ?n = "length ?V"
  let ?dm = "map (\<lambda>i. int (r i)) [0..<?n]"
  let ?nI = "new_indices_upto r ?n ?n"
  have cu: "collect_unique mesh ?dm =
            Some (?nI, map (\<lambda>i. ?V ! i) (kept_upto r ?n), map (\<lambda>i. normals mesh ! i) (kept_upto r ?n))"
    using ok by (intro collect_unique_closed) (simp_all add: mesh_ok_def)
  have tri: "for_each (rewrite_triangle ?dm ?nI) (m_indices mesh) =
             Some (map (map_corners (\<lambda>a. rank r (r a))) (m_indices mesh))"
    using ok rr by (intro for_each_map rewrite_triangle_closed) (auto simp: mesh_ok_def)
  have vm: "for_each (remap_index ?dm ?nI) [0..<?n] =
            Some (map (\<lambda>i. int (rank r (r i))) [0..<?n])"
    using rr by (intro for_each_map remap_index_closed) simp_all
  show ?thesis
    by (simp add: removeDuplicates_def fd cu tri vm compacted_def)
qed

text \<open>Every non-empty mesh that meets the invariant, with or without NaN.\<close>

lemma removeDuplicates_any:
  assumes ok: "mesh_ok mesh" and ne: "vertices mesh \<noteq> []"
  shows "\<exists>h r. findDuplicates mesh = Some (h, map (\<lambda>i. int (r i)) [0..<length (vertices mesh)]) \<and>
           removeDuplicates mesh = Some (compacted mesh r) \<and>
           (\<forall>i<length (vertices mesh).
              r i < length (vertices mesh) \<and> r (r i) = r i \<and>
              vertices mesh ! r i = vertices mesh ! i) \<and>
           (h \<longleftrightarrow> (\<exists>i<length (vertices mesh). r i \<noteq> i))"
proof -
  let ?V = "vertices mesh"
  let ?n = "length ?V"
  obtain h dm where fd: "findDuplicates mesh = Some (h, dm)" and len: "length dm = ?n"
    and entry: "\<forall>i<?n. \<exists>r<?n. dm ! i = int r \<and> dm ! r = int r \<and> ?V ! r = ?V ! i"
    and flag: "h \<longleftrightarrow> (\<exists>i<?n. dm ! i \<noteq> int i)"
    using findDuplicates_any [OF ne] by blast
  define r where "r = (\<lambda>i. nat (dm ! i))"
  have r: "dm ! i = int (r i) \<and> r i < ?n \<and> r (r i) = r i \<and> ?V ! r i = ?V ! i" if "i < ?n" for i
    using entry that by (auto simp: r_def)
  have dm: "dm = map (\<lambda>i. int (r i)) [0..<?n]"
    by (rule nth_equalityI) (simp_all add: len r)
  have rr: "\<forall>i<?n. r i < ?n \<and> r (r i) = r i"
    using r by blast
  have "h \<longleftrightarrow> (\<exists>i<?n. r i \<noteq> i)"
    using flag r by auto
  with removeDuplicates_from_map [OF ok fd [unfolded dm] rr] fd dm r show ?thesis
    by blast
qed





subsection \<open>The kept vertices\<close>

lemma length_kept_le: "length (kept_upto r n) \<le> n"
  using length_filter_le [of "\<lambda>i. r i = i" "[0..<n]"]
  by (simp add: kept_upto_def)

lemma length_kept_eq: "length (kept_upto r n) = n \<longleftrightarrow> (\<forall>i<n. r i = i)"
proof
  assume eq: "length (kept_upto r n) = n"
  show "\<forall>i<n. r i = i"
  proof (rule ccontr)
    assume "\<not> (\<forall>i<n. r i = i)"
    then obtain i where "i < n" "r i \<noteq> i"
      by blast
    then have "length (filter (\<lambda>i. r i = i) [0..<n]) < length [0..<n]"
      by (intro length_filter_less [of i]) simp_all
    with eq show False
      by (simp add: kept_upto_def)
  qed
next
  assume "\<forall>i<n. r i = i"
  then have "filter (\<lambda>i. r i = i) [0..<n] = [0..<n]"
    by simp
  then show "length (kept_upto r n) = n"
    by (simp add: kept_upto_def)
qed

lemma rank_entry:
  assumes "r i < n" and "r (r i) = r i"
  shows "rank r (r i) < length (kept_upto r n)" and "kept_upto r n ! rank r (r i) = r i"
  using kept_rank [of "r i" n r] assms by simp_all


lemma corners_map_corners: "corners (map_corners f t) = map f (corners t)"
  by (cases t) simp

lemma map_corners_cong:
  "(\<And>a. a \<in> set (corners t) \<Longrightarrow> f a = g a) \<Longrightarrow> map_corners f t = map_corners g t"
  by (cases t) simp


text \<open>The cardinality property on every mesh with at least one vertex.\<close>

lemma compacted_count:
  assumes "mesh_ok mesh" and "vertices mesh \<noteq> []"
  shows "\<exists>mesh' vertexMap hasDuplicates duplicatesMap.
           removeDuplicates mesh = Some (mesh', vertexMap) \<and>
           findDuplicates mesh = Some (hasDuplicates, duplicatesMap) \<and>
           length (vertices mesh') \<le> length (vertices mesh) \<and>
           (length (vertices mesh') = length (vertices mesh) \<longleftrightarrow> hasDuplicates = False)"
proof -
  obtain h r where fd: "findDuplicates mesh = Some (h, map (\<lambda>i. int (r i)) [0..<length (vertices mesh)])"
    and rd: "removeDuplicates mesh = Some (compacted mesh r)"
    and flag: "h \<longleftrightarrow> (\<exists>i<length (vertices mesh). r i \<noteq> i)"
    using removeDuplicates_any [OF assms] by blast
  have "length (vertices (fst (compacted mesh r))) \<le> length (vertices mesh)"
    by (simp add: compacted_def length_kept_le)
  moreover have "length (vertices (fst (compacted mesh r))) = length (vertices mesh) \<longleftrightarrow> h = False"
    using flag by (auto simp: compacted_def length_kept_eq)
  ultimately show ?thesis
    using fd rd by (metis prod.collapse)
qed

subsection \<open>The kept vertices of a mesh without NaN\<close>









subsection \<open>The mesh without vertices\<close>

text \<open>The mesh without vertices meets the invariant of the data model.\<close>

lemma empty_mesh_ok: "mesh_ok empty_mesh"
  by (simp add: empty_mesh_def mesh_ok_def)

subsection \<open>Any schedule, any sort\<close>






subsection \<open>Runs on the concrete meshes\<close>


lemma chain_mesh_ok: "mesh_ok chain_mesh" "nan_free chain_mesh" "vertices chain_mesh \<noteq> []"
  by code_simp+

lemma seam_mesh_ok: "mesh_ok seam_mesh" "nan_free seam_mesh" "vertices seam_mesh \<noteq> []"
  by (simp_all add: mesh_ok_def nan_free_def no_nan_def point_def seam_mesh_def)


lemma removeDuplicates_seam_mesh:
  "removeDuplicates seam_mesh =
   Some (\<lparr>vertices = [point 2 0 0, point 0 0 0],
          normals = [point 1 0 0, point 0 1 0],
          m_indices = [Vector3ui 0 1 1]\<rparr>,
         [0, 1, 1, 0])"
  by code_simp


lemma removeDuplicates_chain_mesh:
  "map_option (\<lambda>r. (m_indices (fst r), snd r)) (removeDuplicates chain_mesh) =
   Some ([Vector3ui 5 5 5, Vector3ui 0 5 5],
         [0, 1, 2, 3, 4, 5, 6, 7, 8, 5, 9, 10, 11, 12, 13, 14, 15, 16, 17, 18, 5])"
  by code_simp


section \<open>The claims\<close>

text \<open>
  Claim C1 (zero vertices). The claim asks that \<^verbatim>\<open>findDuplicates\<close> return no duplicates and
  an empty map on a mesh without vertices, with no read of a first element. The function has
  no such guard: line 644 reads \<^verbatim>\<open>vertices[0]\<close> of the empty local vector and writes into
  the empty map, both out of range, so that the call has no result.
\<close>

theorem findDuplicates_empty_mesh: "findDuplicates empty_mesh = None"
  by (simp add: empty_mesh_def findDuplicates_empty)

text \<open>
  Claim C2 (cardinality), at the mesh without vertices. The mesh meets the invariant of the
  data model (lemma \<open>empty_mesh_ok\<close>), and the claim asks there for a compacted count of 0,
  equal to the original. \<^verbatim>\<open>removeDuplicates\<close> starts by calling \<^verbatim>\<open>findDuplicates\<close>, whose
  line 644 reads out of range on this mesh: the call has no result. On every mesh with a
  vertex the property holds (lemma \<open>compacted_count\<close>).
\<close>

theorem removeDuplicates_empty_mesh: "removeDuplicates empty_mesh = None"
  by (simp add: empty_mesh_def removeDuplicates_def findDuplicates_empty)

text \<open>
  Claim C3 (remap validity). On a non-empty mesh that meets the invariant,
  \<^verbatim>\<open>removeDuplicates\<close> returns a vertex map with one entry per original vertex, every entry
  is at least 0 and below the compacted vertex count, and every index of every rewritten
  triangle is below the compacted vertex count.
\<close>

theorem remap_valid:
  assumes "mesh_ok mesh" and "vertices mesh \<noteq> []"
  shows "\<exists>mesh' vertexMap.
           removeDuplicates mesh = Some (mesh', vertexMap) \<and>
           length vertexMap = length (vertices mesh) \<and>
           (\<forall>i<length vertexMap.
              0 \<le> vertexMap ! i \<and> vertexMap ! i < int (length (vertices mesh'))) \<and>
           (\<forall>t\<in>set (m_indices mesh'). \<forall>a\<in>set (corners t). a < length (vertices mesh'))"
proof -
  obtain h r where rd: "removeDuplicates mesh = Some (compacted mesh r)"
    and r: "\<forall>i<length (vertices mesh). r i < length (vertices mesh) \<and> r (r i) = r i"
    using removeDuplicates_any [OF assms] by blast
  show ?thesis
    unfolding rd compacted_def
    using assms(1) r by (auto simp: rank_entry(1) corners_map_corners mesh_ok_def)
qed

text \<open>
  Claim C3, witness: four vertices on two positions.
\<close>

theorem remap_valid_witness:
  "mesh_ok seam_mesh \<and> vertices seam_mesh \<noteq> [] \<and>
   (\<exists>mesh' vertexMap.
      removeDuplicates seam_mesh = Some (mesh', vertexMap) \<and>
      length vertexMap = 4 \<and> length (vertices mesh') = 2 \<and>
      0 \<le> vertexMap ! 3 \<and> vertexMap ! 3 < int (length (vertices mesh')) \<and>
      m_indices mesh' = [Vector3ui 0 1 1])"
proof -
  obtain mesh' vertexMap where rd: "removeDuplicates seam_mesh = Some (mesh', vertexMap)"
    and len: "length vertexMap = length (vertices seam_mesh)"
    and range: "\<forall>i<length vertexMap. 0 \<le> vertexMap ! i \<and> vertexMap ! i < int (length (vertices mesh'))"
    using remap_valid [OF seam_mesh_ok(1,3)] by blast
  from len have "length vertexMap = 4"
    by (simp add: seam_mesh_def)
  moreover from this range have "0 \<le> vertexMap ! 3 \<and> vertexMap ! 3 < int (length (vertices mesh'))"
    by simp
  moreover from rd have "length (vertices mesh') = 2" "m_indices mesh' = [Vector3ui 0 1 1]"
    by (auto simp: removeDuplicates_seam_mesh)
  ultimately show ?thesis
    using rd seam_mesh_ok by blast
qed

text \<open>
  Claim C4 (position preservation). On a non-empty mesh that meets the invariant, the
  compacted vertex at \<open>vertexMap[i]\<close> has the position of the original vertex \<open>i\<close>, for every
  original index \<open>i\<close>.
\<close>

theorem position_preserved:
  assumes "mesh_ok mesh" and "vertices mesh \<noteq> []"
  shows "\<exists>mesh' vertexMap.
           removeDuplicates mesh = Some (mesh', vertexMap) \<and>
           (\<forall>i<length (vertices mesh).
              0 \<le> vertexMap ! i \<and> nat (vertexMap ! i) < length (vertices mesh') \<and>
              vertices mesh' ! nat (vertexMap ! i) = vertices mesh ! i)"
proof -
  obtain h r where rd: "removeDuplicates mesh = Some (compacted mesh r)"
    and r: "\<forall>i<length (vertices mesh). r i < length (vertices mesh) \<and> r (r i) = r i \<and>
              vertices mesh ! r i = vertices mesh ! i"
    using removeDuplicates_any [OF assms] by blast
  show ?thesis
    unfolding rd compacted_def
    using r by (simp add: rank_entry)
qed

text \<open>
  Claim C4, witness: vertex 3 of the seam mesh lands on compacted vertex 0.
\<close>

theorem position_preserved_witness:
  "mesh_ok seam_mesh \<and> vertices seam_mesh \<noteq> [] \<and>
   (\<exists>mesh' vertexMap.
      removeDuplicates seam_mesh = Some (mesh', vertexMap) \<and>
      vertexMap ! 3 = 0 \<and>
      vertices mesh' ! nat (vertexMap ! 3) = vertices seam_mesh ! 3)"
proof -
  obtain mesh' vertexMap where rd: "removeDuplicates seam_mesh = Some (mesh', vertexMap)"
    and pos: "\<forall>i<length (vertices seam_mesh).
                0 \<le> vertexMap ! i \<and> nat (vertexMap ! i) < length (vertices mesh') \<and>
                vertices mesh' ! nat (vertexMap ! i) = vertices seam_mesh ! i"
    using position_preserved [OF seam_mesh_ok(1,3)] by blast
  have "3 < length (vertices seam_mesh)"
    by (simp add: seam_mesh_def)
  with pos have "vertices mesh' ! nat (vertexMap ! 3) = vertices seam_mesh ! 3"
    by blast
  moreover from rd have "vertexMap ! 3 = 0"
    by (auto simp: removeDuplicates_seam_mesh)
  ultimately show ?thesis
    using rd seam_mesh_ok by blast
qed

text \<open>
  Claim C5 (topology preservation). On a non-empty mesh that meets the invariant, the
  triangle list keeps its length, and triangle \<open>k\<close>, originally \<open>(a, b, c)\<close>, becomes
  \<open>(vertexMap[a], vertexMap[b], vertexMap[c])\<close>, which is also each index \<open>idx\<close> rewritten as
  \<open>newIndices[duplicatesMap[idx]]\<close> for the map of \<^verbatim>\<open>findDuplicates\<close> and the new indices of
  the loop of line 667.
\<close>

theorem topology_preserved:
  assumes "mesh_ok mesh" and "vertices mesh \<noteq> []"
  shows "\<exists>mesh' vertexMap hasDuplicates duplicatesMap newIndices uniqueVertices uniqueNormals.
           removeDuplicates mesh = Some (mesh', vertexMap) \<and>
           findDuplicates mesh = Some (hasDuplicates, duplicatesMap) \<and>
           collect_unique mesh duplicatesMap = Some (newIndices, uniqueVertices, uniqueNormals) \<and>
           length (m_indices mesh') = length (m_indices mesh) \<and>
           (\<forall>k<length (m_indices mesh).
              m_indices mesh' ! k =
                map_corners (\<lambda>a. to_uint (vertexMap ! a)) (m_indices mesh ! k) \<and>
              m_indices mesh' ! k =
                map_corners (\<lambda>idx. to_uint (newIndices ! to_uint (duplicatesMap ! idx)))
                  (m_indices mesh ! k))"
proof -
  let ?V = "vertices mesh"
  obtain h r where fd: "findDuplicates mesh = Some (h, map (\<lambda>i. int (r i)) [0..<length ?V])"
    and rd: "removeDuplicates mesh = Some (compacted mesh r)"
    and r: "\<forall>i<length ?V. r i < length ?V \<and> r (r i) = r i"
    using removeDuplicates_any [OF assms] by blast
  let ?dm = "map (\<lambda>i. int (r i)) [0..<length ?V]"
  let ?f = "\<lambda>a. rank r (r a)"
  have cu: "collect_unique mesh ?dm =
            Some (new_indices_upto r (length ?V) (length ?V),
                  map (\<lambda>i. ?V ! i) (kept_upto r (length ?V)),
                  map (\<lambda>i. normals mesh ! i) (kept_upto r (length ?V)))"
    using assms(1) by (intro collect_unique_closed) (simp_all add: mesh_ok_def)
  have in_range: "a < length ?V" if "k < length (m_indices mesh)" "a \<in> set (corners (m_indices mesh ! k))" for k a
    using assms(1) that by (auto simp: mesh_ok_def)
  have 1: "map_corners ?f (m_indices mesh ! k) =
           map_corners (\<lambda>a. to_uint (map (\<lambda>i. int (?f i)) [0..<length ?V] ! a)) (m_indices mesh ! k)"
    if "k < length (m_indices mesh)" for k
    by (rule map_corners_cong) (use in_range [OF that] in simp)
  have 2: "map_corners ?f (m_indices mesh ! k) =
           map_corners (\<lambda>idx. to_uint (new_indices_upto r (length ?V) (length ?V) ! to_uint (?dm ! idx)))
             (m_indices mesh ! k)"
    if "k < length (m_indices mesh)" for k
  proof (rule map_corners_cong)
    fix a assume "a \<in> set (corners (m_indices mesh ! k))"
    then have a: "a < length ?V"
      by (rule in_range [OF that])
    then show "?f a = to_uint (new_indices_upto r (length ?V) (length ?V) ! to_uint (?dm ! a))"
      using new_indices_nth [of "r a" "length ?V" r] r by simp
  qed
  show ?thesis
    unfolding rd fd compacted_def
    using cu 1 2 by simp
qed

text \<open>
  Claim C5, witness: the triangle \<open>(0, 9, 20)\<close> of the chain mesh becomes \<open>(0, 5, 5)\<close>.
\<close>

theorem topology_preserved_witness:
  "mesh_ok chain_mesh \<and> vertices chain_mesh \<noteq> [] \<and>
   (\<exists>mesh' vertexMap.
      removeDuplicates chain_mesh = Some (mesh', vertexMap) \<and>
      length (m_indices mesh') = length (m_indices chain_mesh) \<and>
      m_indices mesh' ! 1 = map_corners (\<lambda>a. to_uint (vertexMap ! a)) (m_indices chain_mesh ! 1) \<and>
      m_indices chain_mesh ! 1 = Vector3ui 0 9 20 \<and>
      m_indices mesh' ! 1 = Vector3ui 0 5 5)"
proof -
  obtain mesh' vertexMap where rd: "removeDuplicates chain_mesh = Some (mesh', vertexMap)"
    and len: "length (m_indices mesh') = length (m_indices chain_mesh)"
    and tri: "\<forall>k<length (m_indices chain_mesh).
                m_indices mesh' ! k = map_corners (\<lambda>a. to_uint (vertexMap ! a)) (m_indices chain_mesh ! k)"
    using topology_preserved [OF chain_mesh_ok(1,3)] by blast
  have "1 < length (m_indices chain_mesh)" "m_indices chain_mesh ! 1 = Vector3ui 0 9 20"
    by (simp_all add: chain_mesh_def)
  moreover from this tri
  have "m_indices mesh' ! 1 = map_corners (\<lambda>a. to_uint (vertexMap ! a)) (m_indices chain_mesh ! 1)"
    by blast
  moreover from rd removeDuplicates_chain_mesh have "m_indices mesh' ! 1 = Vector3ui 0 5 5"
    by auto
  ultimately show ?thesis
    using rd len chain_mesh_ok by blast
qed







text \<open>
  Claim C8 (the scenario of the specification). Four vertices \<open>(0,0,0), (1,0,0), (0,0,0),
  (1,1,0)\<close>, normals \<open>(0,0,1)\<close>, one triangle \<open>(0, 1, 2)\<close>: \<^verbatim>\<open>findDuplicates\<close> reports
  duplicates, and \<^verbatim>\<open>removeDuplicates\<close> leaves the vertices \<open>(0,0,0), (1,0,0), (1,1,0)\<close>, the
  triangle \<open>(0, 1, 0)\<close> and the vertex map \<open>[0, 1, 0, 2]\<close>.
\<close>

theorem scenario_result:
  "findDuplicates scenario_mesh = Some (True, [0, 1, 0, 3]) \<and>
   removeDuplicates scenario_mesh =
     Some (\<lparr>vertices = [point 0 0 0, point 1 0 0, point 1 1 0],
            normals = [point 0 0 1, point 0 0 1, point 0 0 1],
            m_indices = [Vector3ui 0 1 0]\<rparr>,
           [0, 1, 0, 2])"
  by code_simp







end
